theory Spec2Isabelle
  imports Complex_Main "HOL-Library.Multiset"
begin

section \<open>JavaScript values used by the portfolio view\<close>

text \<open>
  The component \<^verbatim>\<open>PortfolioTokenDisplay.tsx\<close> sorts and groups an array of
  \<^verbatim>\<open>TrackedWalletToken\<close> objects. Its numbers are JavaScript numbers: finite values,
  the two infinities and \<^verbatim>\<open>NaN\<close>. A finite number is modelled by its exact rational
  value (rounding to the nearest double and overflow are not modelled, and the two zeros
  are one value); \<^verbatim>\<open>NaN\<close> and the infinities are kept, because the comparator and the
  subtotal of the component can produce them.
\<close>

datatype jsnum = NaN | Fin rat | PosInf | NegInf

fun js_neg :: "jsnum \<Rightarrow> jsnum" where
  "js_neg NaN = NaN"
| "js_neg (Fin x) = Fin (- x)"
| "js_neg PosInf = NegInf"
| "js_neg NegInf = PosInf"

text \<open>The operator \<^verbatim>\<open>+\<close> on two numbers.\<close>

fun js_add :: "jsnum \<Rightarrow> jsnum \<Rightarrow> jsnum" where
  "js_add NaN y = NaN"
| "js_add x NaN = NaN"
| "js_add (Fin x) (Fin y) = Fin (x + y)"
| "js_add PosInf NegInf = NaN"
| "js_add NegInf PosInf = NaN"
| "js_add PosInf y = PosInf"
| "js_add x PosInf = PosInf"
| "js_add NegInf y = NegInf"
| "js_add x NegInf = NegInf"

text \<open>The operator \<^verbatim>\<open>-\<close> on two numbers.\<close>

definition js_sub :: "jsnum \<Rightarrow> jsnum \<Rightarrow> jsnum" where
  "js_sub x y = js_add x (js_neg y)"

text \<open>\<^verbatim>\<open>v < 0\<close>: false for \<^verbatim>\<open>NaN\<close>.\<close>

fun negative :: "jsnum \<Rightarrow> bool" where
  "negative (Fin x) = (x < 0)"
| "negative NegInf = True"
| "negative NaN = False"
| "negative PosInf = False"

text \<open>
  A numeric field of a holding arrives from the JSON response as a number or as a
  string; an absent field (\<^verbatim>\<open>undefined\<close> or \<^verbatim>\<open>null\<close>) is \<open>None\<close>.
\<close>

datatype jsval = JNum jsnum | JStr string

subsection \<open>Strings\<close>

text \<open>
  Strings are sequences of 8-bit characters; \<^verbatim>\<open>toUpperCase\<close> and \<^verbatim>\<open>toLowerCase\<close>
  are modelled on the ASCII letters and leave every other character as it is.
\<close>

definition lowerLetters :: string where
  "lowerLetters = ''abcdefghijklmnopqrstuvwxyz''"

definition upperLetters :: string where
  "upperLetters = ''ABCDEFGHIJKLMNOPQRSTUVWXYZ''"

definition upperChar :: "char \<Rightarrow> char" where
  "upperChar c = (case map_of (zip lowerLetters upperLetters) c of Some u \<Rightarrow> u | None \<Rightarrow> c)"

definition lowerChar :: "char \<Rightarrow> char" where
  "lowerChar c = (case map_of (zip upperLetters lowerLetters) c of Some l \<Rightarrow> l | None \<Rightarrow> c)"

definition toUpperCase :: "string \<Rightarrow> string" where
  "toUpperCase s = map upperChar s"

definition toLowerCase :: "string \<Rightarrow> string" where
  "toLowerCase s = map lowerChar s"

text \<open>\<^verbatim>\<open>x || d\<close> on an optional string: the absent and the empty string are falsy.\<close>

definition orElse :: "string option \<Rightarrow> string \<Rightarrow> string" where
  "orElse x d = (case x of None \<Rightarrow> d | Some s \<Rightarrow> if s = [] then d else s)"

subsection \<open>parseFloat\<close>

text \<open>
  \<^verbatim>\<open>parseFloat\<close> skips leading white space and reads the longest prefix that is a
  \<^verbatim>\<open>StrDecimalLiteral\<close>: an optional sign, then \<^verbatim>\<open>Infinity\<close>, or digits with an
  optional fraction and an optional exponent. With no such prefix the result is
  \<^verbatim>\<open>NaN\<close>.
\<close>

definition isDigit :: "char \<Rightarrow> bool" where
  "isDigit c = (c \<in> set ''0123456789'')"

text \<open>
  The white space among the 8-bit characters: space, tab, line feed, vertical tab, form
  feed, carriage return and the no-break space. The white space characters above
  \<^verbatim>\<open>U+00FF\<close> are not characters of the model.
\<close>

definition isWhiteSpace :: "char \<Rightarrow> bool" where
  "isWhiteSpace c =
     (c \<in> set [CHR '' '', CHR 0x09, CHR 0x0A, CHR 0x0B, CHR 0x0C, CHR 0x0D, CHR 0xA0])"

definition digitVal :: "char \<Rightarrow> int" where
  "digitVal c = of_char c - 48"

definition digitsVal :: "string \<Rightarrow> int" where
  "digitsVal ds = foldl (\<lambda>n c. 10 * n + digitVal c) 0 ds"

text \<open>The value of an \<^verbatim>\<open>ExponentPart\<close> at the head of the string, 0 when there is none.\<close>

definition unsignedExponent :: "string \<Rightarrow> int option" where
  "unsignedExponent s =
     (let ds = takeWhile isDigit s in if ds = [] then None else Some (digitsVal ds))"

definition exponentPart :: "string \<Rightarrow> int" where
  "exponentPart s =
     (case s of
        [] \<Rightarrow> 0
      | e # r \<Rightarrow>
          if e = CHR ''e'' \<or> e = CHR ''E'' then
            (case r of
               [] \<Rightarrow> 0
             | g # ds \<Rightarrow>
                 if g = CHR ''+'' then (case unsignedExponent ds of None \<Rightarrow> 0 | Some n \<Rightarrow> n)
                 else if g = CHR ''-'' then (case unsignedExponent ds of None \<Rightarrow> 0 | Some n \<Rightarrow> - n)
                 else (case unsignedExponent r of None \<Rightarrow> 0 | Some n \<Rightarrow> n))
          else 0)"

definition scale10 :: "rat \<Rightarrow> int \<Rightarrow> rat" where
  "scale10 m e = (if 0 \<le> e then m * 10 ^ nat e else m / 10 ^ nat (- e))"

definition unsignedDecimal :: "string \<Rightarrow> jsnum" where
  "unsignedDecimal s =
     (if take 8 s = ''Infinity'' then PosInf
      else
        let ip = takeWhile isDigit s; r1 = dropWhile isDigit s in
        (case r1 of
           [] \<Rightarrow> if ip = [] then NaN else Fin (of_int (digitsVal ip))
         | c # r2 \<Rightarrow>
             if c = CHR ''.'' then
               (let fp = takeWhile isDigit r2; r3 = dropWhile isDigit r2 in
                if ip = [] \<and> fp = [] then NaN
                else Fin (scale10 (of_int (digitsVal (ip @ fp)) / 10 ^ length fp) (exponentPart r3)))
             else if ip = [] then NaN
             else Fin (scale10 (of_int (digitsVal ip)) (exponentPart r1))))"

definition parseFloat :: "string \<Rightarrow> jsnum" where
  "parseFloat s =
     (let t = dropWhile isWhiteSpace s in
      case t of
        [] \<Rightarrow> NaN
      | c # r \<Rightarrow>
          if c = CHR ''-'' then js_neg (unsignedDecimal r)
          else if c = CHR ''+'' then unsignedDecimal r
          else unsignedDecimal t)"

text \<open>
  The expression \<^verbatim>\<open>parseFloat(x?.toString() || '0')\<close> of the comparator and of the
  subtotal. An absent field and the empty string give \<^verbatim>\<open>'0'\<close>. For a number,
  \<^verbatim>\<open>toString\<close> prints a literal that \<^verbatim>\<open>parseFloat\<close> reads back as the same number
  (also \<^verbatim>\<open>"NaN"\<close>, which has no numeric prefix, and \<^verbatim>\<open>"Infinity"\<close>), and the printed
  string is never empty.
\<close>

definition parsedField :: "jsval option \<Rightarrow> jsnum" where
  "parsedField x =
     (case x of
        None \<Rightarrow> parseFloat ''0''
      | Some (JNum n) \<Rightarrow> n
      | Some (JStr s) \<Rightarrow> if s = [] then parseFloat ''0'' else parseFloat s)"

text \<open>\<^verbatim>\<open>x || 0\<close> on an optional number: absent, zero and \<^verbatim>\<open>NaN\<close> are falsy.\<close>

definition numOrZero :: "jsnum option \<Rightarrow> jsnum" where
  "numOrZero x =
     (case x of
        None \<Rightarrow> Fin 0
      | Some n \<Rightarrow> if n = NaN \<or> n = Fin 0 then Fin 0 else n)"

section \<open>The data model\<close>

text \<open>
  \<^verbatim>\<open>TrackedWalletToken\<close> of \<^verbatim>\<open>hooks/useWalletTracking\<close>. The fields the component
  guards with \<^verbatim>\<open>?.\<close> or \<^verbatim>\<open>||\<close> are optional here, whatever the interface declares,
  since the objects are the JSON response as it came.
\<close>

record TrackedWalletToken =
  id_field :: string
  name :: "string option"
  symbol :: "string option"
  address :: string
  chain :: "string option"
  position_type :: string
  quantity :: "jsval option"
  price :: "jsval option"
  value_field :: "jsval option"
  price_change_24h :: "jsnum option"
  decimals :: "jsnum option"
  icon_url :: "string option"
  updated_at :: "string option"
  wallet_address :: string
  wallet_chain :: string

section \<open>The chain normalizer\<close>

definition getChainColor :: "string option \<Rightarrow> string" where
  "getChainColor chn =
     (case map_option toUpperCase chn of
        None \<Rightarrow> ''#666''
      | Some chainUpper \<Rightarrow>
          if chainUpper = ''ETHEREUM'' \<or> chainUpper = ''ETH'' then ''#627EEA''
          else if chainUpper = ''POLYGON'' \<or> chainUpper = ''MATIC'' then ''#8247E5''
          else if chainUpper = ''BSC'' \<or> chainUpper = ''BINANCE'' then ''#F3BA2F''
          else if chainUpper = ''ARBITRUM'' \<or> chainUpper = ''ARB'' then ''#28A0F0''
          else if chainUpper = ''OPTIMISM'' \<or> chainUpper = ''OP'' then ''#FF0420''
          else if chainUpper = ''AVALANCHE'' \<or> chainUpper = ''AVAX'' then ''#E84142''
          else if chainUpper = ''SOLANA'' \<or> chainUpper = ''SOL'' then ''#9945FF''
          else if chainUpper = ''SUI'' then ''#6FBCF0''
          else if chainUpper = ''BASE'' then ''#0052FF''
          else if chainUpper = ''FANTOM'' \<or> chainUpper = ''FTM'' then ''#1969FF''
          else if chainUpper = ''EVM'' then ''#8B5CF6''
          else ''#666'')"

definition getChainDisplayName :: "string option \<Rightarrow> string" where
  "getChainDisplayName chn =
     (case map_option toUpperCase chn of
        None \<Rightarrow> orElse chn ''Unknown''
      | Some chainUpper \<Rightarrow>
          if chainUpper = ''EVM'' then ''EVM''
          else if chainUpper = ''ETH'' then ''Ethereum''
          else if chainUpper = ''MATIC'' then ''Polygon''
          else if chainUpper = ''ARB'' then ''Arbitrum''
          else if chainUpper = ''OP'' then ''Optimism''
          else if chainUpper = ''AVAX'' then ''Avalanche''
          else if chainUpper = ''SOL'' then ''Solana''
          else if chainUpper = ''FTM'' then ''Fantom''
          else orElse chn ''Unknown'')"

section \<open>The sort engine\<close>

text \<open>
  \<^verbatim>\<open>Array.prototype.sort\<close> with a comparator. ECMAScript fixes the sorted array
  when the comparator is a consistent ordering of the elements and leaves it to the
  engine otherwise, so the model is the algorithm of an engine, V8. It calls the
  comparator, reads a result of \<^verbatim>\<open>NaN\<close> as \<open>0\<close>, and only tests whether the result
  is below zero. It finds the run at the head of the array (the longest prefix that never
  descends, or the longest prefix that strictly descends, which it reverses) and puts
  every further element into the sorted part by binary insertion. This is what the
  engine does on an array of fewer than 64 elements; a longer array it cuts into such
  runs and merges them, with the same result whenever the comparator is consistent.
\<close>

text \<open>
  \<^verbatim>\<open>CountAndMakeRun\<close>: the number of elements after the second that continue the
  run, each compared with its left neighbour.
\<close>

fun runRest :: "bool \<Rightarrow> ('a \<Rightarrow> 'a \<Rightarrow> jsnum) \<Rightarrow> 'a \<Rightarrow> 'a list \<Rightarrow> nat" where
  "runRest isDescending cmp previousElement [] = 0"
| "runRest isDescending cmp previousElement (currentElement # rest) =
     (if negative (cmp currentElement previousElement) = isDescending
      then Suc (runRest isDescending cmp currentElement rest)
      else 0)"

definition runLength :: "('a \<Rightarrow> 'a \<Rightarrow> jsnum) \<Rightarrow> 'a list \<Rightarrow> nat" where
  "runLength cmp xs =
     (case xs of
        [] \<Rightarrow> 0
      | elementHigh # ys \<Rightarrow>
          (case ys of
             [] \<Rightarrow> 1
           | elementLow # rest \<Rightarrow>
               2 + runRest (negative (cmp elementLow elementHigh)) cmp elementLow rest))"

definition isDescendingRun :: "('a \<Rightarrow> 'a \<Rightarrow> jsnum) \<Rightarrow> 'a list \<Rightarrow> bool" where
  "isDescendingRun cmp xs =
     (case xs of
        [] \<Rightarrow> False
      | elementHigh # ys \<Rightarrow>
          (case ys of [] \<Rightarrow> False | elementLow # rest \<Rightarrow> negative (cmp elementLow elementHigh)))"

text \<open>The run at the head of the array, reversed when it descends.\<close>

definition madeRun :: "('a \<Rightarrow> 'a \<Rightarrow> jsnum) \<Rightarrow> 'a list \<Rightarrow> 'a list" where
  "madeRun cmp xs =
     (if isDescendingRun cmp xs then rev (take (runLength cmp xs) xs)
      else take (runLength cmp xs) xs)"

text \<open>
  The binary search of \<^verbatim>\<open>BinaryInsertionSort\<close> for the place of \<open>pivot\<close> among
  the elements \<open>left\<close> to \<open>right - 1\<close> of the sorted part.
\<close>

function binarySearch :: "('a \<Rightarrow> 'a \<Rightarrow> jsnum) \<Rightarrow> 'a \<Rightarrow> 'a list \<Rightarrow> nat \<Rightarrow> nat \<Rightarrow> nat" where
  "binarySearch cmp pivot work left right =
     (if left < right then
        (if negative (cmp pivot (work ! (left + (right - left) div 2)))
         then binarySearch cmp pivot work left (left + (right - left) div 2)
         else binarySearch cmp pivot work (left + (right - left) div 2 + 1) right)
      else left)"
  by pat_completeness auto
termination
  by (relation "measure (\<lambda>(cmp, pivot, work, left, right). right - left)") auto

declare binarySearch.simps [simp del]

text \<open>The pivot is put at the place found and the elements from there on move right.\<close>

definition insertPivot :: "('a \<Rightarrow> 'a \<Rightarrow> jsnum) \<Rightarrow> 'a \<Rightarrow> 'a list \<Rightarrow> 'a list" where
  "insertPivot cmp pivot work =
     (let left = binarySearch cmp pivot work 0 (length work)
      in take left work @ pivot # drop left work)"

fun binaryInsertionSort :: "('a \<Rightarrow> 'a \<Rightarrow> jsnum) \<Rightarrow> 'a list \<Rightarrow> 'a list \<Rightarrow> 'a list" where
  "binaryInsertionSort cmp work [] = work"
| "binaryInsertionSort cmp work (pivot # rest) =
     binaryInsertionSort cmp (insertPivot cmp pivot work) rest"

definition array_sort :: "('a \<Rightarrow> 'a \<Rightarrow> jsnum) \<Rightarrow> 'a list \<Rightarrow> 'a list" where
  "array_sort cmp xs =
     (if length xs < 2 then xs
      else binaryInsertionSort cmp (madeRun cmp xs) (drop (runLength cmp xs) xs))"

text \<open>
  The comparator of \<^verbatim>\<open>sortedTokens\<close>. \<open>sortBy\<close> is the string the \<^verbatim>\<open>switch\<close> tests
  at run time. \<^verbatim>\<open>String.prototype.localeCompare\<close> depends on the locale of the device;
  it is the parameter \<open>lc\<close>, whose result is negative, zero or positive.
\<close>

definition comparator ::
  "(string \<Rightarrow> string \<Rightarrow> int) \<Rightarrow> string \<Rightarrow> TrackedWalletToken \<Rightarrow> TrackedWalletToken \<Rightarrow> jsnum" where
  "comparator lc sortBy a b =
     (if sortBy = ''value'' then
        (let valueA = parsedField (value_field a); valueB = parsedField (value_field b)
         in js_sub valueB valueA)
      else if sortBy = ''balance'' then
        (let balanceA = parsedField (quantity a); balanceB = parsedField (quantity b)
         in js_sub balanceB balanceA)
      else if sortBy = ''performance'' then
        (let perfA = numOrZero (price_change_24h a); perfB = numOrZero (price_change_24h b)
         in js_sub perfB perfA)
      else if sortBy = ''alphabetical'' then
        (let nameA = toLowerCase (orElse (name a) (orElse (symbol a) ''''));
             nameB = toLowerCase (orElse (name b) (orElse (symbol b) ''''))
         in Fin (of_int (lc nameA nameB)))
      else if sortBy = ''chain'' then
        (let chainA = toLowerCase (getChainDisplayName (chain a));
             chainB = toLowerCase (getChainDisplayName (chain b))
         in Fin (of_int (lc chainA chainB)))
      else Fin 0)"

definition sortedTokens ::
  "(string \<Rightarrow> string \<Rightarrow> int) \<Rightarrow> string \<Rightarrow> TrackedWalletToken list \<Rightarrow> TrackedWalletToken list" where
  "sortedTokens lc sortBy tokens = array_sort (comparator lc sortBy) tokens"

text \<open>
  Two holdings compare equal under a criterion when the sort reads the comparator's
  result as zero (\<open>0\<close> or \<^verbatim>\<open>NaN\<close>) in both directions.
\<close>

definition readsAsZero :: "jsnum \<Rightarrow> bool" where
  "readsAsZero v = (v = Fin 0 \<or> v = NaN)"

definition compareEqual ::
  "(string \<Rightarrow> string \<Rightarrow> int) \<Rightarrow> string \<Rightarrow> TrackedWalletToken \<Rightarrow> TrackedWalletToken \<Rightarrow> bool" where
  "compareEqual lc sortBy a b =
     (readsAsZero (comparator lc sortBy a b) \<and> readsAsZero (comparator lc sortBy b a))"

text \<open>
  A collation for the examples: it compares two strings character by character, by
  character code, as the root collation does on lower-case letters and digits.
\<close>

fun codeCompare :: "string \<Rightarrow> string \<Rightarrow> int" where
  "codeCompare [] [] = 0"
| "codeCompare [] (y # ys) = - 1"
| "codeCompare (x # xs) [] = 1"
| "codeCompare (x # xs) (y # ys) =
     (if (of_char x :: nat) < of_char y then - 1
      else if (of_char y :: nat) < of_char x then 1
      else codeCompare xs ys)"

section \<open>The grouping engine\<close>

text \<open>
  \<^verbatim>\<open>getTokensByBlockchain\<close> fills the object literal \<^verbatim>\<open>{}\<close>. Its own properties are
  an association list in creation order. Reading \<^verbatim>\<open>grouped[chain]\<close> for a name that
  is not an own property finds what the object inherits from \<^verbatim>\<open>Object.prototype\<close>:
  for the names below a function (for \<^verbatim>\<open>__proto__\<close> the prototype object), which is
  truthy, so no array is created, and which has no \<^verbatim>\<open>push\<close>, so the call
  \<^verbatim>\<open>grouped[chain].push(token)\<close> throws a \<^verbatim>\<open>TypeError\<close>. For every other name the
  read gives \<^verbatim>\<open>undefined\<close>.
\<close>

datatype js_error = TypeError

definition objectPrototypeKeys :: "string list" where
  "objectPrototypeKeys =
     [''constructor'', ''__defineGetter__'', ''__defineSetter__'', ''hasOwnProperty'',
      ''__lookupGetter__'', ''__lookupSetter__'', ''isPrototypeOf'', ''propertyIsEnumerable'',
      ''toString'', ''valueOf'', ''__proto__'', ''toLocaleString'']"

type_synonym groups = "(string \<times> TrackedWalletToken list) list"

text \<open>\<^verbatim>\<open>grouped[chain].push(token)\<close> on an own property.\<close>

fun pushTo :: "string \<Rightarrow> TrackedWalletToken \<Rightarrow> groups \<Rightarrow> groups" where
  "pushTo c token [] = []"
| "pushTo c token ((k, ts) # g) =
     (if k = c then (k, ts @ [token]) # g else (k, ts) # pushTo c token g)"

text \<open>The body of the \<^verbatim>\<open>forEach\<close> callback.\<close>

definition addToken :: "groups \<Rightarrow> TrackedWalletToken \<Rightarrow> js_error + groups" where
  "addToken grouped token =
     (let c = getChainDisplayName (chain token) in
      case map_of grouped c of
        Some ts \<Rightarrow> Inr (pushTo c token grouped)
      | None \<Rightarrow>
          if c \<in> set objectPrototypeKeys then Inl TypeError
          else Inr (pushTo c token (grouped @ [(c, [])])))"

fun forEachToken :: "TrackedWalletToken list \<Rightarrow> groups \<Rightarrow> js_error + groups" where
  "forEachToken [] grouped = Inr grouped"
| "forEachToken (token # rest) grouped =
     (case addToken grouped token of
        Inl e \<Rightarrow> Inl e
      | Inr grouped' \<Rightarrow> forEachToken rest grouped')"

definition getTokensByBlockchain ::
  "(string \<Rightarrow> string \<Rightarrow> int) \<Rightarrow> string \<Rightarrow> TrackedWalletToken list \<Rightarrow> js_error + groups" where
  "getTokensByBlockchain lc sortBy tokens = forEachToken (sortedTokens lc sortBy tokens) []"

text \<open>
  \<^verbatim>\<open>Object.entries\<close> lists the own properties whose name is an array index (the
  decimal numeral, without leading zeros, of a number below \<open>2\<^sup>3\<^sup>2 - 1\<close>) first, in
  ascending numeric order, and then the other properties in creation order.
\<close>

definition arrayIndex :: "string \<Rightarrow> int option" where
  "arrayIndex s =
     (case s of
        [] \<Rightarrow> None
      | c # r \<Rightarrow>
          if c = CHR ''0'' then (if r = [] then Some 0 else None)
          else if list_all isDigit s \<and> digitsVal s < 2 ^ 32 - 1 then Some (digitsVal s)
          else None)"

definition indexValue :: "string \<Rightarrow> int" where
  "indexValue k = (case arrayIndex k of Some n \<Rightarrow> n | None \<Rightarrow> 0)"

definition objectEntries :: "groups \<Rightarrow> groups" where
  "objectEntries grouped =
     sort_key (\<lambda>e. indexValue (fst e)) (filter (\<lambda>e. arrayIndex (fst e) \<noteq> None) grouped)
     @ filter (\<lambda>e. arrayIndex (fst e) = None) grouped"

text \<open>
  What \<^verbatim>\<open>renderBlockchainSection\<close> computes for one entry: the title, the token count
  and the subtotal \<^verbatim>\<open>totalValue\<close>, a \<^verbatim>\<open>reduce\<close> from \<open>0\<close>.
\<close>

definition totalValue :: "TrackedWalletToken list \<Rightarrow> jsnum" where
  "totalValue blockchainTokens =
     foldl (\<lambda>sum token. js_add sum (parsedField (value_field token))) (Fin 0) blockchainTokens"

record blockchainSection =
  title :: string
  tokenCount :: nat
  blockchainValue :: jsnum
  sectionTokens :: "TrackedWalletToken list"

definition renderBlockchainSection :: "string \<times> TrackedWalletToken list \<Rightarrow> blockchainSection" where
  "renderBlockchainSection item =
     (let blockchain = fst item; blockchainTokens = snd item in
      \<lparr> title = blockchain,
        tokenCount = length blockchainTokens,
        blockchainValue = totalValue blockchainTokens,
        sectionTokens = blockchainTokens \<rparr>)"

text \<open>The sections of the list shown when the criterion is \<^verbatim>\<open>'chain'\<close>.\<close>

definition blockchainSections ::
  "(string \<Rightarrow> string \<Rightarrow> int) \<Rightarrow> string \<Rightarrow> TrackedWalletToken list \<Rightarrow> js_error + blockchainSection list" where
  "blockchainSections lc sortBy tokens =
     (case getTokensByBlockchain lc sortBy tokens of
        Inl e \<Rightarrow> Inl e
      | Inr grouped \<Rightarrow> Inr (map renderBlockchainSection (objectEntries grouped)))"

section \<open>Notions used in the statements\<close>

subsection \<open>The conversion and the subtotal the specification describes\<close>

text \<open>
  For sorting and aggregation the specification describes a conversion in which a field
  that does not parse as a finite number counts as zero. It is stated here to be compared
  with \<open>parsedField\<close>, the conversion the component performs.
\<close>

definition parseOrZero :: "jsval option \<Rightarrow> jsnum" where
  "parseOrZero x = (case parsedField x of Fin r \<Rightarrow> Fin r | _ \<Rightarrow> Fin 0)"

definition specSubtotal :: "TrackedWalletToken list \<Rightarrow> jsnum" where
  "specSubtotal holdings = foldl (\<lambda>sum h. js_add sum (parseOrZero (value_field h))) (Fin 0) holdings"

subsection \<open>Order, ties and consistent comparators\<close>

text \<open>
  An array ascends for a comparator when no element is below its left neighbour: the
  engine finds such an array to be one run.
\<close>

definition ascends :: "('a \<Rightarrow> 'a \<Rightarrow> jsnum) \<Rightarrow> 'a list \<Rightarrow> bool" where
  "ascends cmp xs = successively (\<lambda>x y. \<not> negative (cmp y x)) xs"

text \<open>
  Two elements tie when neither is below the other. A comparator is consistent on the
  elements of an array when no two of them are below each other and "not below" is
  transitive among them; these are the comparators for which ECMAScript fixes the result
  of the sort.
\<close>

definition tie :: "('a \<Rightarrow> 'a \<Rightarrow> jsnum) \<Rightarrow> 'a \<Rightarrow> 'a \<Rightarrow> bool" where
  "tie cmp a b = (\<not> negative (cmp a b) \<and> \<not> negative (cmp b a))"

definition consistentOn :: "'a set \<Rightarrow> ('a \<Rightarrow> 'a \<Rightarrow> jsnum) \<Rightarrow> bool" where
  "consistentOn A cmp =
     ((\<forall>a \<in> A. \<forall>b \<in> A. negative (cmp a b) \<longrightarrow> \<not> negative (cmp b a)) \<and>
      (\<forall>a \<in> A. \<forall>b \<in> A. \<forall>c \<in> A.
         \<not> negative (cmp a b) \<and> \<not> negative (cmp b c) \<longrightarrow> \<not> negative (cmp a c)))"

subsection \<open>The grouping the specification describes\<close>

text \<open>
  One group for each chain display name, the names in the order of their first
  occurrence in the holdings, each group with the holdings of that name in their order.
  It is stated here to be compared with \<open>getTokensByBlockchain\<close>.
\<close>

definition displayNameOf :: "TrackedWalletToken \<Rightarrow> string" where
  "displayNameOf h = getChainDisplayName (chain h)"

fun firstOccurrences :: "string list \<Rightarrow> string list" where
  "firstOccurrences [] = []"
| "firstOccurrences (k # ks) = k # firstOccurrences (filter (\<lambda>j. j \<noteq> k) ks)"

definition groupsOf :: "TrackedWalletToken list \<Rightarrow> groups" where
  "groupsOf holdings =
     map (\<lambda>k. (k, filter (\<lambda>h. displayNameOf h = k) holdings))
       (firstOccurrences (map displayNameOf holdings))"

text \<open>
  The state of the \<^verbatim>\<open>forEach\<close> loop after some holdings: the groups that existed
  before, each extended by its holdings, and then the groups created for new names.
\<close>

definition extendGroups :: "groups \<Rightarrow> TrackedWalletToken list \<Rightarrow> groups" where
  "extendGroups g ts = map (\<lambda>e. (fst e, snd e @ filter (\<lambda>h. displayNameOf h = fst e) ts)) g"

definition newGroups :: "groups \<Rightarrow> TrackedWalletToken list \<Rightarrow> groups" where
  "newGroups g ts =
     map (\<lambda>k. (k, filter (\<lambda>h. displayNameOf h = k) ts))
       (firstOccurrences (filter (\<lambda>k. k \<notin> fst ` set g) (map displayNameOf ts)))"

subsection \<open>Holdings for the examples\<close>

text \<open>A holding with every optional field absent.\<close>

definition emptyToken :: TrackedWalletToken where
  "emptyToken =
     \<lparr> id_field = '''', name = None, symbol = None, address = '''', chain = None,
       position_type = '''', quantity = None, price = None, value_field = None,
       price_change_24h = None, decimals = None, icon_url = None, updated_at = None,
       wallet_address = '''', wallet_chain = '''' \<rparr>"

definition tokUSDC :: TrackedWalletToken where
  "tokUSDC = emptyToken\<lparr>symbol := Some ''USDC'', chain := Some ''ETH'',
     value_field := Some (JStr ''100.50'')\<rparr>"

definition tokSOL :: TrackedWalletToken where
  "tokSOL = emptyToken\<lparr>symbol := Some ''SOL'', chain := Some ''SOLANA'',
     value_field := Some (JStr ''50'')\<rparr>"

definition tokARB :: TrackedWalletToken where
  "tokARB = emptyToken\<lparr>symbol := Some ''ARB'', chain := Some ''ARB''\<rparr>"

definition tokDAI :: TrackedWalletToken where
  "tokDAI = emptyToken\<lparr>symbol := Some ''DAI'', chain := Some ''eth'',
     value_field := Some (JNum (Fin 50))\<rparr>"

definition tokBadQuantity :: TrackedWalletToken where
  "tokBadQuantity = emptyToken\<lparr>symbol := Some ''BAD'', quantity := Some (JStr ''abc'')\<rparr>"

definition tokQuantity5 :: TrackedWalletToken where
  "tokQuantity5 = emptyToken\<lparr>symbol := Some ''FIVE'', quantity := Some (JStr ''5'')\<rparr>"

definition tokBadValue :: TrackedWalletToken where
  "tokBadValue = emptyToken\<lparr>symbol := Some ''BAD'', chain := Some ''ETH'',
     value_field := Some (JStr ''abc'')\<rparr>"

definition tokNaNValue :: TrackedWalletToken where
  "tokNaNValue = emptyToken\<lparr>symbol := Some ''NAN'', chain := Some ''ETH'',
     value_field := Some (JNum NaN)\<rparr>"

text \<open>Holdings worth 5 and 50 dollars, told apart by their symbols.\<close>

definition tokFive :: TrackedWalletToken where
  "tokFive = emptyToken\<lparr>symbol := Some ''X'', value_field := Some (JNum (Fin 5))\<rparr>"

definition tokFifty :: "string \<Rightarrow> TrackedWalletToken" where
  "tokFifty s = emptyToken\<lparr>symbol := Some s, value_field := Some (JNum (Fin 50))\<rparr>"

definition tokConstructor :: TrackedWalletToken where
  "tokConstructor = emptyToken\<lparr>symbol := Some ''X'', chain := Some ''constructor''\<rparr>"

definition tokChain137 :: TrackedWalletToken where
  "tokChain137 = emptyToken\<lparr>symbol := Some ''POL'', chain := Some ''137''\<rparr>"

definition tokChain56 :: TrackedWalletToken where
  "tokChain56 = emptyToken\<lparr>symbol := Some ''BNB'', chain := Some ''56''\<rparr>"

section \<open>Properties of the sort\<close>

subsection \<open>The run and the binary insertion\<close>

lemma runRest_le: "runRest d cmp p xs \<le> length xs"
  by (induction xs arbitrary: p) auto

lemma runLength_le: "runLength cmp xs \<le> length xs"
  using runRest_le [of "negative (cmp (hd (tl xs)) (hd xs))" cmp "hd (tl xs)" "tl (tl xs)"]
  by (auto simp: runLength_def split: list.splits)

lemma mset_madeRun: "mset (madeRun cmp xs) = mset (take (runLength cmp xs) xs)"
  by (simp add: madeRun_def)

lemma binarySearch_stop: "\<not> left < right \<Longrightarrow> binarySearch cmp pivot work left right = left"
  by (subst binarySearch.simps) simp

lemma binarySearch_low:
  "left < right \<Longrightarrow> negative (cmp pivot (work ! (left + (right - left) div 2))) \<Longrightarrow>
   binarySearch cmp pivot work left right
   = binarySearch cmp pivot work left (left + (right - left) div 2)"
  by (subst binarySearch.simps) simp

lemma binarySearch_high:
  "left < right \<Longrightarrow> \<not> negative (cmp pivot (work ! (left + (right - left) div 2))) \<Longrightarrow>
   binarySearch cmp pivot work left right
   = binarySearch cmp pivot work (left + (right - left) div 2 + 1) right"
  by (subst binarySearch.simps) simp


lemma mset_insertPivot: "mset (insertPivot cmp pivot work) = add_mset pivot (mset work)"
proof -
  have "mset (take k work) + mset (drop k work) = mset work" for k
    by (metis append_take_drop_id mset_append)
  then show ?thesis by (simp add: insertPivot_def Let_def)
qed

lemma mset_binaryInsertionSort:
  "mset (binaryInsertionSort cmp work rest) = mset work + mset rest"
  by (induction rest arbitrary: work) (simp_all add: mset_insertPivot)

lemma mset_array_sort: "mset (array_sort cmp xs) = mset xs"
proof -
  have "mset (take k xs) + mset (drop k xs) = mset xs" for k
    by (metis append_take_drop_id mset_append)
  then show ?thesis
    by (simp add: array_sort_def mset_binaryInsertionSort mset_madeRun)
qed

lemma set_array_sort: "set (array_sort cmp xs) = set xs"
  using mset_array_sort [of cmp xs] by (metis set_mset_mset)

text \<open>An array that ascends is one run, and the sort returns it as it is.\<close>

lemma runRest_ascends:
  "ascends cmp (p # xs) \<Longrightarrow> runRest False cmp p xs = length xs"
  by (induction xs arbitrary: p) (auto simp: ascends_def)

lemma array_sort_ascends: "ascends cmp xs \<Longrightarrow> array_sort cmp xs = xs"
proof (cases xs)
  case Nil
  then show ?thesis by (simp add: array_sort_def)
next
  case (Cons x ys)
  assume a: "ascends cmp xs"
  show ?thesis
  proof (cases ys)
    case Nil
    then show ?thesis using Cons by (simp add: array_sort_def)
  next
    case (Cons y zs)
    have nd: "\<not> negative (cmp y x)" and r: "ascends cmp (y # zs)"
      using a \<open>xs = x # ys\<close> Cons by (simp_all add: ascends_def)
    have "runLength cmp xs = length xs"
      using nd runRest_ascends [OF r] \<open>xs = x # ys\<close> Cons by (simp add: runLength_def)
    moreover have "\<not> isDescendingRun cmp xs"
      using nd \<open>xs = x # ys\<close> Cons by (simp add: isDescendingRun_def)
    ultimately show ?thesis
      by (simp add: array_sort_def madeRun_def)
  qed
qed

lemma array_sort_zero: "\<forall>u v. \<not> negative (cmp u v) \<Longrightarrow> array_sort cmp xs = xs"
proof (rule array_sort_ascends)
  assume "\<forall>u v. \<not> negative (cmp u v)"
  then show "ascends cmp xs"
    unfolding ascends_def by (induction xs rule: induct_list012) auto
qed




lemma run_successively:
  "successively (\<lambda>x y. negative (cmp y x) = d) (take (Suc (runRest d cmp p xs)) (p # xs))"
  by (induction xs arbitrary: p) auto



subsection \<open>The sort is the stable sort when the comparator is consistent\<close>

text \<open>
  On a sorted part and with a consistent comparator the binary search finds the place
  behind every element the pivot is not below and in front of every element it is below.
\<close>

lemma consistentOn_trans:
  "consistentOn A cmp \<Longrightarrow> a \<in> A \<Longrightarrow> b \<in> A \<Longrightarrow> c \<in> A \<Longrightarrow>
   \<not> negative (cmp a b) \<Longrightarrow> \<not> negative (cmp b c) \<Longrightarrow> \<not> negative (cmp a c)"
  unfolding consistentOn_def by blast

lemma consistentOn_asym:
  "consistentOn A cmp \<Longrightarrow> a \<in> A \<Longrightarrow> b \<in> A \<Longrightarrow> negative (cmp a b) \<Longrightarrow> \<not> negative (cmp b a)"
  unfolding consistentOn_def by blast

lemma consistentOn_subset: "consistentOn A cmp \<Longrightarrow> B \<subseteq> A \<Longrightarrow> consistentOn B cmp"
  unfolding consistentOn_def by blast

lemma binarySearch_place:
  "consistentOn (insert pivot (set work)) cmp \<Longrightarrow>
   sorted_wrt (\<lambda>a b. \<not> negative (cmp b a)) work \<Longrightarrow>
   left \<le> right \<Longrightarrow> right \<le> length work \<Longrightarrow>
   \<forall>i < left. \<not> negative (cmp pivot (work ! i)) \<Longrightarrow>
   \<forall>i. right \<le> i \<and> i < length work \<longrightarrow> negative (cmp pivot (work ! i)) \<Longrightarrow>
   (\<forall>i < binarySearch cmp pivot work left right. \<not> negative (cmp pivot (work ! i))) \<and>
   (\<forall>i. binarySearch cmp pivot work left right \<le> i \<and> i < length work
        \<longrightarrow> negative (cmp pivot (work ! i)))"
proof (induction cmp pivot work left right rule: binarySearch.induct)
  case (1 cmp pivot work left right)
  note con = "1.prems"(1) and srt = "1.prems"(2)
  have pin: "pivot \<in> insert pivot (set work)" by simp
  have mem: "work ! i \<in> insert pivot (set work)" if "i < length work" for i
    using that by simp
  have ord: "\<not> negative (cmp (work ! j) (work ! i))" if "i < j" "j < length work" for i j
    using srt that by (simp add: sorted_wrt_iff_nth_less)
  show ?case
  proof (cases "left < right")
    case False
    then have "left = right" using "1.prems"(3) by simp
    then show ?thesis using "1.prems"(5,6) False by (simp add: binarySearch_stop)
  next
    case True
    let ?mid = "left + (right - left) div 2"
    have m: "left \<le> ?mid" "?mid < right" using True by auto
    have ml: "?mid < length work" using m "1.prems"(4) by simp
    show ?thesis
    proof (cases "negative (cmp pivot (work ! ?mid))")
      case neg: True
      have above: "\<forall>i. ?mid \<le> i \<and> i < length work \<longrightarrow> negative (cmp pivot (work ! i))"
      proof (intro allI impI)
        fix i
        assume i: "?mid \<le> i \<and> i < length work"
        show "negative (cmp pivot (work ! i))"
        proof (cases "i = ?mid")
          case True
          then show ?thesis using neg by simp
        next
          case False
          then have "?mid < i" using i by simp
          then have o: "\<not> negative (cmp (work ! i) (work ! ?mid))"
            using i by (intro ord) simp_all
          have mi: "work ! i \<in> insert pivot (set work)" using i by (intro mem) simp
          have mm: "work ! ?mid \<in> insert pivot (set work)" using ml by (rule mem)
          show ?thesis
          proof (rule ccontr)
            assume "\<not> negative (cmp pivot (work ! i))"
            with con pin mi mm have "\<not> negative (cmp pivot (work ! ?mid))"
              using o by (rule consistentOn_trans)
            then show False using neg by simp
          qed
        qed
      qed
      have le: "?mid \<le> length work" using ml by simp
      have "(\<forall>i < binarySearch cmp pivot work left ?mid. \<not> negative (cmp pivot (work ! i))) \<and>
            (\<forall>i. binarySearch cmp pivot work left ?mid \<le> i \<and> i < length work
                \<longrightarrow> negative (cmp pivot (work ! i)))"
        using True neg con srt m(1) le "1.prems"(5) above by (rule "1.IH"(1))
      moreover have "binarySearch cmp pivot work left right = binarySearch cmp pivot work left ?mid"
        using True neg by (rule binarySearch_low)
      ultimately show ?thesis by (simp only:)
    next
      case nneg: False
      have below: "\<forall>i < ?mid + 1. \<not> negative (cmp pivot (work ! i))"
      proof (intro allI impI)
        fix i
        assume i: "i < ?mid + 1"
        show "\<not> negative (cmp pivot (work ! i))"
        proof (cases "i = ?mid")
          case True
          then show ?thesis using nneg by simp
        next
          case False
          then have lt: "i < ?mid" using i by simp
          then have o: "\<not> negative (cmp (work ! ?mid) (work ! i))"
            using ml by (intro ord) simp_all
          have il: "i < length work" using lt ml by simp
          have mi: "work ! i \<in> insert pivot (set work)" using il by (rule mem)
          have mm: "work ! ?mid \<in> insert pivot (set work)" using ml by (rule mem)
          from con pin mm mi nneg o show ?thesis
            by (rule consistentOn_trans)
        qed
      qed
      have le: "?mid + 1 \<le> right" using m by simp
      have "(\<forall>i < binarySearch cmp pivot work (?mid + 1) right. \<not> negative (cmp pivot (work ! i))) \<and>
            (\<forall>i. binarySearch cmp pivot work (?mid + 1) right \<le> i \<and> i < length work
                \<longrightarrow> negative (cmp pivot (work ! i)))"
        using True nneg con srt le "1.prems"(4) below "1.prems"(6) by (rule "1.IH"(2))
      moreover have "binarySearch cmp pivot work left right
                     = binarySearch cmp pivot work (?mid + 1) right"
        using True nneg by (rule binarySearch_high)
      ultimately show ?thesis by (simp only:)
    qed
  qed
qed

lemma insertPivot_place:
  assumes "consistentOn (insert pivot (set work)) cmp"
    and "sorted_wrt (\<lambda>a b. \<not> negative (cmp b a)) work"
  shows "(\<forall>e \<in> set (take (binarySearch cmp pivot work 0 (length work)) work).
            \<not> negative (cmp pivot e)) \<and>
         (\<forall>e \<in> set (drop (binarySearch cmp pivot work 0 (length work)) work).
            negative (cmp pivot e))"
proof -
  let ?k = "binarySearch cmp pivot work 0 (length work)"
  have p: "(\<forall>i < ?k. \<not> negative (cmp pivot (work ! i))) \<and>
           (\<forall>i. ?k \<le> i \<and> i < length work \<longrightarrow> negative (cmp pivot (work ! i)))"
    using assms by (intro binarySearch_place) auto
  have "\<not> negative (cmp pivot e)" if "e \<in> set (take ?k work)" for e
  proof -
    from that obtain i where "i < length (take ?k work)" "take ?k work ! i = e"
      by (auto simp: in_set_conv_nth)
    then show ?thesis using p by auto
  qed
  moreover have "negative (cmp pivot e)" if "e \<in> set (drop ?k work)" for e
  proof -
    from that obtain i where "i < length (drop ?k work)" "drop ?k work ! i = e"
      by (auto simp: in_set_conv_nth)
    then show ?thesis using p by auto
  qed
  ultimately show ?thesis by blast
qed

lemma insertPivot_sorted:
  assumes con: "consistentOn (insert pivot (set work)) cmp"
    and srt: "sorted_wrt (\<lambda>a b. \<not> negative (cmp b a)) work"
  shows "sorted_wrt (\<lambda>a b. \<not> negative (cmp b a)) (insertPivot cmp pivot work)"
proof -
  let ?k = "binarySearch cmp pivot work 0 (length work)"
  have "sorted_wrt (\<lambda>a b. \<not> negative (cmp b a)) (take ?k work @ drop ?k work)"
    using srt by simp
  from this [unfolded sorted_wrt_append]
  have t: "sorted_wrt (\<lambda>a b. \<not> negative (cmp b a)) (take ?k work)"
    and d: "sorted_wrt (\<lambda>a b. \<not> negative (cmp b a)) (drop ?k work)"
    and td: "\<forall>a \<in> set (take ?k work). \<forall>b \<in> set (drop ?k work). \<not> negative (cmp b a)"
    by blast+
  note pl = insertPivot_place [OF con srt]
  have "\<not> negative (cmp e pivot)" if "e \<in> set (drop ?k work)" for e
  proof -
    have "e \<in> insert pivot (set work)" using that by (auto dest: in_set_dropD)
    then show ?thesis
      using consistentOn_asym [OF con, of pivot e] pl that by auto
  qed
  then show ?thesis
    using t d td pl by (auto simp: insertPivot_def Let_def sorted_wrt_append)
qed

lemma insertPivot_stable:
  assumes con: "consistentOn (insert pivot (set work)) cmp"
    and srt: "sorted_wrt (\<lambda>a b. \<not> negative (cmp b a)) work"
    and a: "a \<in> insert pivot (set work)"
  shows "filter (tie cmp a) (insertPivot cmp pivot work) = filter (tie cmp a) (work @ [pivot])"
proof -
  let ?k = "binarySearch cmp pivot work 0 (length work)"
  note pl = insertPivot_place [OF con srt]
  have w: "filter (tie cmp a) work
           = filter (tie cmp a) (take ?k work) @ filter (tie cmp a) (drop ?k work)"
    by (metis append_take_drop_id filter_append)
  show ?thesis
  proof (cases "tie cmp a pivot")
    case False
    then show ?thesis using w by (simp add: insertPivot_def Let_def)
  next
    case True
    have "\<not> tie cmp a e" if e: "e \<in> set (drop ?k work)" for e
    proof
      assume t: "tie cmp a e"
      have ein: "e \<in> insert pivot (set work)" using e by (auto dest: in_set_dropD)
      have pa: "\<not> negative (cmp pivot a)" and ae: "\<not> negative (cmp a e)"
        using True t by (simp_all add: tie_def)
      have pin: "pivot \<in> insert pivot (set work)" by simp
      from con pin a ein pa ae have "\<not> negative (cmp pivot e)"
        by (rule consistentOn_trans)
      then show False using pl e by simp
    qed
    then have "filter (tie cmp a) (drop ?k work) = []"
      by (simp add: filter_empty_conv)
    then show ?thesis using True w by (simp add: insertPivot_def Let_def)
  qed
qed

lemma set_insertPivot: "set (insertPivot cmp pivot work) = insert pivot (set work)"
proof -
  have "set_mset (mset (insertPivot cmp pivot work)) = set_mset (add_mset pivot (mset work))"
    by (simp only: mset_insertPivot)
  then show ?thesis by simp
qed

lemma binaryInsertionSort_sorted_stable:
  "consistentOn (set work \<union> set rest) cmp \<Longrightarrow>
   sorted_wrt (\<lambda>a b. \<not> negative (cmp b a)) work \<Longrightarrow>
   sorted_wrt (\<lambda>a b. \<not> negative (cmp b a)) (binaryInsertionSort cmp work rest) \<and>
   (\<forall>a \<in> set work \<union> set rest.
      filter (tie cmp a) (binaryInsertionSort cmp work rest) = filter (tie cmp a) (work @ rest))"
proof (induction rest arbitrary: work)
  case Nil
  then show ?case by simp
next
  case (Cons pivot rest)
  have con1: "consistentOn (insert pivot (set work)) cmp"
    using Cons.prems(1) by (rule consistentOn_subset) auto
  have s: "sorted_wrt (\<lambda>a b. \<not> negative (cmp b a)) (insertPivot cmp pivot work)"
    using con1 Cons.prems(2) by (rule insertPivot_sorted)
  have con2: "consistentOn (set (insertPivot cmp pivot work) \<union> set rest) cmp"
    using Cons.prems(1) by (rule consistentOn_subset) (auto simp: set_insertPivot)
  note ih = Cons.IH [OF con2 s]
  have "filter (tie cmp a) (binaryInsertionSort cmp (insertPivot cmp pivot work) rest)
        = filter (tie cmp a) (work @ pivot # rest)"
    if a: "a \<in> set work \<union> set (pivot # rest)" for a
  proof -
    have a1: "a \<in> set (insertPivot cmp pivot work) \<union> set rest"
      using a by (auto simp: set_insertPivot)
    have "filter (tie cmp a) (insertPivot cmp pivot work) = filter (tie cmp a) (work @ [pivot])"
    proof (cases "a \<in> insert pivot (set work)")
      case True
      with con1 Cons.prems(2) show ?thesis by (rule insertPivot_stable)
    next
      case False
      have c3: "consistentOn (insert a (insert pivot (set work))) cmp"
        using Cons.prems(1) by (rule consistentOn_subset) (use a in auto)
      note pl = insertPivot_place [OF con1 Cons.prems(2)]
      let ?k = "binarySearch cmp pivot work 0 (length work)"
      have w: "filter (tie cmp a) work
               = filter (tie cmp a) (take ?k work) @ filter (tie cmp a) (drop ?k work)"
        by (metis append_take_drop_id filter_append)
      show ?thesis
      proof (cases "tie cmp a pivot")
        case False
        then show ?thesis using w by (simp add: insertPivot_def Let_def)
      next
        case True
        have "\<not> tie cmp a e" if e: "e \<in> set (drop ?k work)" for e
        proof
          assume t: "tie cmp a e"
          have ein: "e \<in> insert a (insert pivot (set work))"
            using e by (auto dest: in_set_dropD)
          have pa: "\<not> negative (cmp pivot a)" and ae: "\<not> negative (cmp a e)"
            using True t by (simp_all add: tie_def)
          have pin: "pivot \<in> insert a (insert pivot (set work))"
            and ain: "a \<in> insert a (insert pivot (set work))" by simp_all
          from c3 pin ain ein pa ae have "\<not> negative (cmp pivot e)"
            by (rule consistentOn_trans)
          then show False using pl e by simp
        qed
        then have "filter (tie cmp a) (drop ?k work) = []"
          by (simp add: filter_empty_conv)
        then show ?thesis using True w by (simp add: insertPivot_def Let_def)
      qed
    qed
    then show ?thesis using ih a1 by simp
  qed
  then show ?case using ih by simp
qed

lemma run_of_array:
  "successively (\<lambda>u v. negative (cmp v u) = isDescendingRun cmp xs) (take (runLength cmp xs) xs)"
proof (cases xs)
  case Nil
  then show ?thesis by simp
next
  case (Cons x ys)
  show ?thesis
  proof (cases ys)
    case Nil
    then show ?thesis using Cons by (simp add: runLength_def)
  next
    case ys: (Cons y zs)
    let ?d = "negative (cmp y x)"
    have "successively (\<lambda>u v. negative (cmp v u) = ?d) (take (Suc (runRest ?d cmp y zs)) (y # zs))"
      by (rule run_successively)
    then show ?thesis
      using Cons ys by (simp add: runLength_def isDescendingRun_def)
  qed
qed

lemma at_most_one_filter:
  "sorted_wrt R xs \<Longrightarrow> \<forall>u \<in> set xs. \<forall>v \<in> set xs. Q u \<and> Q v \<longrightarrow> \<not> R u v \<Longrightarrow>
   length (filter Q xs) \<le> 1"
proof (induction xs)
  case Nil
  show ?case by simp
next
  case (Cons x xs)
  show ?case
  proof (cases "Q x")
    case False
    then show ?thesis using Cons by simp
  next
    case True
    have "\<not> Q v" if "v \<in> set xs" for v
      using Cons.prems that True by auto
    then have "filter Q xs = []" by (simp add: filter_empty_conv)
    then show ?thesis using True by simp
  qed
qed

lemma rev_short: "length ys \<le> 1 \<Longrightarrow> rev ys = ys"
  by (cases ys) auto

lemma madeRun_sorted_stable:
  assumes con: "consistentOn (set xs) cmp"
  shows "sorted_wrt (\<lambda>a b. \<not> negative (cmp b a)) (madeRun cmp xs) \<and>
         (\<forall>a \<in> set xs. filter (tie cmp a) (madeRun cmp xs)
                          = filter (tie cmp a) (take (runLength cmp xs) xs))"
proof -
  let ?run = "take (runLength cmp xs) xs"
  have sub: "set ?run \<subseteq> set xs" by (rule set_take_subset)
  note s = run_of_array [of cmp xs]
  show ?thesis
  proof (cases "isDescendingRun cmp xs")
    case False
    then have "successively (\<lambda>u v. \<not> negative (cmp v u)) ?run"
      using s by simp
    moreover have "\<not> negative (cmp w u)"
      if "u \<in> set ?run" "v \<in> set ?run" "w \<in> set ?run"
        "\<not> negative (cmp v u)" "\<not> negative (cmp w v)" for u v w
    proof -
      have "w \<in> set xs" "v \<in> set xs" "u \<in> set xs" using that sub by auto
      with con show ?thesis using that(5,4) by (rule consistentOn_trans)
    qed
    ultimately have "sorted_wrt (\<lambda>u v. \<not> negative (cmp v u)) ?run"
      by (subst (asm) successively_iff_sorted_wrt_strong) blast+
    then show ?thesis using False by (simp add: madeRun_def)
  next
    case True
    then have sd: "successively (\<lambda>u v. negative (cmp v u)) ?run"
      using s by simp
    have tr: "negative (cmp w u)"
      if "u \<in> set ?run" "v \<in> set ?run" "w \<in> set ?run"
        "negative (cmp v u)" "negative (cmp w v)" for u v w
    proof (rule ccontr)
      assume n: "\<not> negative (cmp w u)"
      have mem: "w \<in> set xs" "u \<in> set xs" "v \<in> set xs" using that sub by auto
      have "\<not> negative (cmp u v)"
        using con mem(3,2) that(4) by (rule consistentOn_asym)
      with con mem n have "\<not> negative (cmp w v)"
        by (rule consistentOn_trans)
      then show False using that(5) by simp
    qed
    have sw: "sorted_wrt (\<lambda>u v. negative (cmp v u)) ?run"
      using sd tr by (subst (asm) successively_iff_sorted_wrt_strong) blast+
    have "sorted_wrt (\<lambda>u v. \<not> negative (cmp u v)) ?run"
    proof (rule sorted_wrt_mono_rel [OF _ sw])
      fix u v
      assume "u \<in> set ?run" "v \<in> set ?run" "negative (cmp v u)"
      then show "\<not> negative (cmp u v)"
        using con sub by (intro consistentOn_asym [of "set xs" cmp v u]) auto
    qed
    then have srt: "sorted_wrt (\<lambda>a b. \<not> negative (cmp b a)) (rev ?run)"
      by (simp add: sorted_wrt_rev)
    have "filter (tie cmp a) (rev ?run) = filter (tie cmp a) ?run" if a: "a \<in> set xs" for a
    proof -
      have "\<not> negative (cmp v u)"
        if "u \<in> set ?run" "v \<in> set ?run" "tie cmp a u \<and> tie cmp a v" for u v
      proof -
        have mem: "v \<in> set xs" "u \<in> set xs" using that sub by auto
        have "\<not> negative (cmp v a)" "\<not> negative (cmp a u)"
          using that(3) by (simp_all add: tie_def)
        with con mem(1) a mem(2) show ?thesis by (rule consistentOn_trans)
      qed
      then have "\<forall>u \<in> set ?run. \<forall>v \<in> set ?run. tie cmp a u \<and> tie cmp a v \<longrightarrow> \<not> negative (cmp v u)"
        by blast
      with sw have "length (filter (tie cmp a) ?run) \<le> 1"
        by (rule at_most_one_filter)
      then have "rev (filter (tie cmp a) ?run) = filter (tie cmp a) ?run"
        by (rule rev_short)
      then show ?thesis by (simp add: rev_filter)
    qed
    then show ?thesis using True srt by (simp add: madeRun_def)
  qed
qed

lemma set_madeRun: "set (madeRun cmp xs) = set (take (runLength cmp xs) xs)"
  by (simp add: madeRun_def)

lemma array_sort_sorted_stable:
  assumes con: "consistentOn (set xs) cmp"
  shows "sorted_wrt (\<lambda>a b. \<not> negative (cmp b a)) (array_sort cmp xs) \<and>
         (\<forall>a \<in> set xs. filter (tie cmp a) (array_sort cmp xs) = filter (tie cmp a) xs)"
proof (cases "length xs < 2")
  case True
  then have "xs = [] \<or> (\<exists>x. xs = [x])"
    by (cases xs) (auto simp: less_Suc_eq_0_disj)
  then show ?thesis using True by (auto simp: array_sort_def)
next
  case False
  let ?n = "runLength cmp xs"
  have sets: "set (madeRun cmp xs) \<union> set (drop ?n xs) = set xs"
    by (metis set_madeRun set_append append_take_drop_id)
  note mr = madeRun_sorted_stable [OF con]
  have con': "consistentOn (set (madeRun cmp xs) \<union> set (drop ?n xs)) cmp"
    using con sets by simp
  note bi = binaryInsertionSort_sorted_stable [OF con' conjunct1 [OF mr]]
  have "filter (tie cmp a) (array_sort cmp xs) = filter (tie cmp a) xs" if a: "a \<in> set xs" for a
  proof -
    have "filter (tie cmp a) (array_sort cmp xs)
          = filter (tie cmp a) (madeRun cmp xs @ drop ?n xs)"
      using bi a sets False by (simp add: array_sort_def)
    also have "\<dots> = filter (tie cmp a) (take ?n xs) @ filter (tie cmp a) (drop ?n xs)"
      using mr a by simp
    also have "\<dots> = filter (tie cmp a) xs"
      by (metis append_take_drop_id filter_append)
    finally show ?thesis .
  qed
  then show ?thesis using bi False by (simp add: array_sort_def)
qed

text \<open>Two sorted arrays with the same elements and the same order within every tie are equal.\<close>

lemma sorted_stable_unique:
  "consistentOn (set ys) cmp \<Longrightarrow> mset ys = mset zs \<Longrightarrow>
   sorted_wrt (\<lambda>a b. \<not> negative (cmp b a)) ys \<Longrightarrow>
   sorted_wrt (\<lambda>a b. \<not> negative (cmp b a)) zs \<Longrightarrow>
   \<forall>a \<in> set ys. filter (tie cmp a) ys = filter (tie cmp a) zs \<Longrightarrow> ys = zs"
proof (induction ys arbitrary: zs)
  case Nil
  then show ?case by simp
next
  case (Cons y ys)
  from Cons.prems(2) have "zs \<noteq> []" by auto
  then obtain z zs' where zs: "zs = z # zs'" by (cases zs) auto
  have sets: "set (y # ys) = set (z # zs')"
    using Cons.prems(2) zs by (metis set_mset_mset)
  note con = Cons.prems(1)
  have yy: "\<not> negative (cmp y y)"
    using consistentOn_asym [OF con, of y y] by auto
  have zy: "\<not> negative (cmp z y)"
  proof (cases "z = y")
    case True
    then show ?thesis using yy by simp
  next
    case False
    then have "z \<in> set ys" using sets by auto
    then show ?thesis using Cons.prems(3) by auto
  qed
  have yz: "\<not> negative (cmp y z)"
  proof (cases "z = y")
    case True
    then show ?thesis using yy by simp
  next
    case False
    then have "y \<in> set zs'" using sets by auto
    then show ?thesis using Cons.prems(4) zs by auto
  qed
  have "filter (tie cmp y) (y # ys) = filter (tie cmp y) (z # zs')"
    using Cons.prems(5) zs by simp
  then have eq: "z = y"
    using yy zy yz by (simp add: tie_def)
  have "ys = zs'"
  proof (rule Cons.IH)
    show "consistentOn (set ys) cmp"
      using con by (rule consistentOn_subset) auto
    show "mset ys = mset zs'" using Cons.prems(2) zs eq by simp
    show "sorted_wrt (\<lambda>a b. \<not> negative (cmp b a)) ys" using Cons.prems(3) by simp
    show "sorted_wrt (\<lambda>a b. \<not> negative (cmp b a)) zs'" using Cons.prems(4) zs by simp
    show "\<forall>a \<in> set ys. filter (tie cmp a) ys = filter (tie cmp a) zs'"
    proof
      fix a
      assume "a \<in> set ys"
      then have "filter (tie cmp a) (y # ys) = filter (tie cmp a) (y # zs')"
        using Cons.prems(5) zs eq by simp
      then show "filter (tie cmp a) ys = filter (tie cmp a) zs'"
        by (cases "tie cmp a y") simp_all
    qed
  qed
  then show ?case using zs eq by simp
qed

text \<open>
  So, for a comparator consistent on the array, every array with the elements of the
  input that is sorted and keeps the ties in their input order is the result of
  \<open>array_sort\<close>.
\<close>

lemma array_sort_unique:
  assumes con: "consistentOn (set xs) cmp"
    and m: "mset zs = mset xs"
    and s: "sorted_wrt (\<lambda>a b. \<not> negative (cmp b a)) zs"
    and f: "\<forall>a \<in> set xs. filter (tie cmp a) zs = filter (tie cmp a) xs"
  shows "array_sort cmp xs = zs"
proof (rule sorted_stable_unique)
  note ss = array_sort_sorted_stable [OF con]
  show "consistentOn (set (array_sort cmp xs)) cmp"
    using con by (simp add: set_array_sort)
  show "mset (array_sort cmp xs) = mset zs"
    using m by (simp add: mset_array_sort)
  show "sorted_wrt (\<lambda>a b. \<not> negative (cmp b a)) (array_sort cmp xs)"
    using ss by simp
  show "sorted_wrt (\<lambda>a b. \<not> negative (cmp b a)) zs" by (rule s)
  show "\<forall>a \<in> set (array_sort cmp xs).
          filter (tie cmp a) (array_sort cmp xs) = filter (tie cmp a) zs"
    using ss f by (simp add: set_array_sort)
qed

subsection \<open>The comparator of the holdings\<close>

lemma negative_js_sub_antisym: "negative (js_sub x y) \<Longrightarrow> \<not> negative (js_sub y x)"
  by (cases x; cases y) (auto simp: js_sub_def)



lemma negative_js_sub_trans:
  "y \<noteq> NaN \<Longrightarrow> \<not> negative (js_sub y x) \<Longrightarrow> \<not> negative (js_sub z y) \<Longrightarrow> \<not> negative (js_sub z x)"
  by (cases x; cases y; cases z) (auto simp: js_sub_def)

text \<open>
  Sorting by value is consistent on holdings whose values all parse; a value of
  \<^verbatim>\<open>NaN\<close> ties with every other value and makes the comparator inconsistent.
\<close>

lemma comparator_value_consistent:
  assumes "\<forall>h \<in> set tokens. parsedField (value_field h) \<noteq> NaN"
  shows "consistentOn (set tokens) (comparator lc ''value'')"
  unfolding consistentOn_def
proof (intro conjI ballI impI)
  fix a b
  assume "negative (comparator lc ''value'' a b)"
  then show "\<not> negative (comparator lc ''value'' b a)"
    using negative_js_sub_antisym by (simp add: comparator_def)
next
  fix a b c
  assume "b \<in> set tokens"
    and "\<not> negative (comparator lc ''value'' a b) \<and> \<not> negative (comparator lc ''value'' b c)"
  then show "\<not> negative (comparator lc ''value'' a c)"
    using assms negative_js_sub_trans [of "parsedField (value_field b)"
        "parsedField (value_field a)" "parsedField (value_field c)"]
    by (simp add: comparator_def)
qed

lemma comparator_value_inconsistent_with_NaN:
  "\<not> consistentOn (set [tokDAI, tokBadValue, tokUSDC]) (comparator codeCompare ''value'')"
  by code_simp

lemma comparator_balance_consistent_example:
  "consistentOn (set [tokBadQuantity, tokQuantity5]) (comparator codeCompare ''balance'')"
  by code_simp

text \<open>
  Where the comparator is consistent on the holdings, the sort is stable: the holdings
  that tie with a holding keep their input order.
\<close>

lemma sortedTokens_stable_when_consistent:
  assumes "consistentOn (set tokens) (comparator lc sortBy)" and "a \<in> set tokens"
  shows "filter (tie (comparator lc sortBy) a) (sortedTokens lc sortBy tokens)
         = filter (tie (comparator lc sortBy) a) tokens"
  using array_sort_sorted_stable [OF assms(1)] assms(2) by (simp add: sortedTokens_def)

subsection \<open>The sorted holdings\<close>

text \<open>
  Claim C1. For every array of holdings and every criterion, \<open>sortedTokens\<close> returns
  an array of the same length with the same multiset of elements: a permutation of its
  input.
\<close>

theorem sortedTokens_permutation:
  "mset (sortedTokens lc sortBy tokens) = mset tokens \<and>
   length (sortedTokens lc sortBy tokens) = length tokens"
proof -
  have m: "mset (sortedTokens lc sortBy tokens) = mset tokens"
    by (simp add: sortedTokens_def mset_array_sort)
  from m have "length (sortedTokens lc sortBy tokens) = length tokens"
    by (rule mset_eq_length)
  with m show ?thesis by simp
qed

text \<open>The example of the specification: three holdings sorted by value.\<close>

theorem sortedTokens_permutation_witness:
  "mset (sortedTokens codeCompare ''value'' [tokARB, tokSOL, tokUSDC]) = mset [tokARB, tokSOL, tokUSDC] \<and>
   length (sortedTokens codeCompare ''value'' [tokARB, tokSOL, tokUSDC]) = 3 \<and>
   sortedTokens codeCompare ''value'' [tokARB, tokSOL, tokUSDC] = [tokUSDC, tokSOL, tokARB]"
proof -
  have srt: "sortedTokens codeCompare ''value'' [tokARB, tokSOL, tokUSDC] = [tokUSDC, tokSOL, tokARB]"
    by code_simp
  from sortedTokens_permutation [of codeCompare "''value''" "[tokARB, tokSOL, tokUSDC]"] srt
  show ?thesis by simp
qed

text \<open>
  Claim C2. The sort should be stable: two holdings that compare equal should stand in
  the sorted array in the order they had in the input. A holding whose value is not a
  number makes the comparator return \<^verbatim>\<open>NaN\<close>, and then the sort is not stable:
  sorted by value, the holdings \<^verbatim>\<open>D\<close> and \<^verbatim>\<open>E\<close>, both worth 50 dollars and compared
  with result 0, change places, and so do the holding without a number and the one
  behind it, compared with result \<^verbatim>\<open>NaN\<close>.
\<close>

theorem sort_not_stable_with_NaN_key:
  "comparator codeCompare ''value'' (tokFifty ''D'') (tokFifty ''E'') = Fin 0 \<and>
   comparator codeCompare ''value'' (tokFifty ''E'') (tokFifty ''D'') = Fin 0 \<and>
   sortedTokens codeCompare ''value''
     [tokFive, tokFifty ''A'', tokFifty ''B'', tokFifty ''C'', tokBadValue, tokFifty ''D'',
      tokFifty ''E'']
   = [tokFifty ''A'', tokFifty ''B'', tokFifty ''C'', tokFifty ''E'', tokFive, tokBadValue,
      tokFifty ''D''] \<and>
   compareEqual codeCompare ''value'' tokBadValue tokSOL \<and>
   sortedTokens codeCompare ''value'' [tokARB, tokUSDC, tokBadValue, tokSOL]
   = [tokUSDC, tokSOL, tokARB, tokBadValue]"
  by code_simp

text \<open>
  Without such a holding the sort is stable: two holdings worth 50 dollars each keep
  their order while the sort moves a larger holding in front of them and a holding
  without value behind them.
\<close>

lemma sortedTokens_stable_example:
  "consistentOn (set [tokARB, tokSOL, tokDAI, tokUSDC]) (comparator codeCompare ''value'') \<and>
   compareEqual codeCompare ''value'' tokSOL tokDAI \<and>
   sortedTokens codeCompare ''value'' [tokARB, tokSOL, tokDAI, tokUSDC]
     = [tokUSDC, tokSOL, tokDAI, tokARB]"
  by code_simp

text \<open>
  Claim C3. A holding whose quantity, price, value or 24h change is absent or is a
  string that is not a number should count as zero in the sort and in the subtotal. An
  absent field does; a string that is not a number gives \<^verbatim>\<open>NaN\<close>: the key is not
  zero, the comparator returns \<^verbatim>\<open>NaN\<close> and the holding stays in front of a holding
  with quantity 5, which a zero key would put first.
\<close>

theorem non_numeric_quantity_is_not_zero:
  "parsedField (quantity tokBadQuantity) = NaN \<and>
   parseOrZero (quantity tokBadQuantity) = Fin 0 \<and>
   comparator codeCompare ''balance'' tokBadQuantity tokQuantity5 = NaN \<and>
   sortedTokens codeCompare ''balance'' [tokBadQuantity, tokQuantity5] = [tokBadQuantity, tokQuantity5]"
  by code_simp

text \<open>An absent or empty field does count as zero, and so does a 24h change of \<^verbatim>\<open>NaN\<close>.\<close>

lemma absent_fields_are_zero:
  "parsedField None = Fin 0 \<and> parsedField (Some (JStr '''')) = Fin 0 \<and>
   numOrZero None = Fin 0 \<and> numOrZero (Some NaN) = Fin 0"
  by code_simp

section \<open>Properties of the chain normalizer\<close>

text \<open>
  Claim C4, as the table of \<open>getChainDisplayName\<close> has it. The table holds the short
  aliases only: every case variant of \<^verbatim>\<open>ETH\<close> gives \<^verbatim>\<open>Ethereum\<close>, of
  \<^verbatim>\<open>MATIC\<close> \<^verbatim>\<open>Polygon\<close>, of \<^verbatim>\<open>ARB\<close> \<^verbatim>\<open>Arbitrum\<close>, of \<^verbatim>\<open>SOL\<close>
  \<^verbatim>\<open>Solana\<close> and of \<^verbatim>\<open>FTM\<close> \<^verbatim>\<open>Fantom\<close>. The long names are not in the
  table, and every case variant of one is returned as it was given.
\<close>

theorem chain_display_short_aliases:
  "(toUpperCase s = ''ETH'' \<longrightarrow> getChainDisplayName (Some s) = ''Ethereum'') \<and>
   (toUpperCase s = ''MATIC'' \<longrightarrow> getChainDisplayName (Some s) = ''Polygon'') \<and>
   (toUpperCase s = ''ARB'' \<longrightarrow> getChainDisplayName (Some s) = ''Arbitrum'') \<and>
   (toUpperCase s = ''SOL'' \<longrightarrow> getChainDisplayName (Some s) = ''Solana'') \<and>
   (toUpperCase s = ''FTM'' \<longrightarrow> getChainDisplayName (Some s) = ''Fantom'') \<and>
   (toUpperCase s \<in> set [''ETHEREUM'', ''POLYGON'', ''ARBITRUM'', ''SOLANA'', ''FANTOM'']
      \<longrightarrow> getChainDisplayName (Some s) = s)"
  by (auto simp: getChainDisplayName_def orElse_def toUpperCase_def)

theorem chain_display_short_aliases_witness:
  "toUpperCase ''eTh'' = ''ETH'' \<and> getChainDisplayName (Some ''eTh'') = ''Ethereum'' \<and>
   toUpperCase ''Matic'' = ''MATIC'' \<and> getChainDisplayName (Some ''Matic'') = ''Polygon'' \<and>
   toUpperCase ''arb'' = ''ARB'' \<and> getChainDisplayName (Some ''arb'') = ''Arbitrum'' \<and>
   toUpperCase ''sol'' = ''SOL'' \<and> getChainDisplayName (Some ''sol'') = ''Solana'' \<and>
   toUpperCase ''Ftm'' = ''FTM'' \<and> getChainDisplayName (Some ''Ftm'') = ''Fantom'' \<and>
   toUpperCase ''Polygon'' \<in> set [''ETHEREUM'', ''POLYGON'', ''ARBITRUM'', ''SOLANA'', ''FANTOM''] \<and>
   getChainDisplayName (Some ''Polygon'') = ''Polygon''"
proof -
  have u: "toUpperCase ''eTh'' = ''ETH''" "toUpperCase ''Matic'' = ''MATIC''"
    "toUpperCase ''arb'' = ''ARB''" "toUpperCase ''sol'' = ''SOL''" "toUpperCase ''Ftm'' = ''FTM''"
    "toUpperCase ''Polygon'' = ''POLYGON''"
    by code_simp+
  from chain_display_short_aliases [of "''eTh''"] chain_display_short_aliases [of "''Matic''"]
    chain_display_short_aliases [of "''arb''"] chain_display_short_aliases [of "''sol''"]
    chain_display_short_aliases [of "''Ftm''"] chain_display_short_aliases [of "''Polygon''"] u
  show ?thesis by simp
qed

text \<open>
  Claim C4 as it is written fails on the long names: \<^verbatim>\<open>ETHEREUM\<close>, \<^verbatim>\<open>POLYGON\<close>,
  \<^verbatim>\<open>ARBITRUM\<close>, \<^verbatim>\<open>SOLANA\<close> and \<^verbatim>\<open>FANTOM\<close> do not give the canonical name.
\<close>

theorem chain_display_long_names_counterexample:
  "getChainDisplayName (Some ''ETHEREUM'') \<noteq> ''Ethereum'' \<and>
   getChainDisplayName (Some ''POLYGON'') \<noteq> ''Polygon'' \<and>
   getChainDisplayName (Some ''ARBITRUM'') \<noteq> ''Arbitrum'' \<and>
   getChainDisplayName (Some ''SOLANA'') \<noteq> ''Solana'' \<and>
   getChainDisplayName (Some ''FANTOM'') \<noteq> ''Fantom''"
  by code_simp

section \<open>Properties of the grouping\<close>

subsection \<open>The loop computes the groups of the specification\<close>

text \<open>
  As long as no chain display name is a name every object inherits, the loop returns the
  groups the specification describes.
\<close>

lemma set_firstOccurrences: "set (firstOccurrences ks) = set ks"
  by (induction ks rule: firstOccurrences.induct) auto

lemma distinct_firstOccurrences: "distinct (firstOccurrences ks)"
  by (induction ks rule: firstOccurrences.induct) (auto simp: set_firstOccurrences)

lemma pushTo_map:
  "distinct (map fst g) \<Longrightarrow>
   pushTo c t g = map (\<lambda>e. (fst e, if fst e = c then snd e @ [t] else snd e)) g"
proof (induction g)
  case Nil
  show ?case by simp
next
  case (Cons e g)
  obtain k ts where e: "e = (k, ts)" by (cases e)
  show ?case
  proof (cases "k = c")
    case True
    then have "\<forall>d \<in> set g. fst d \<noteq> c" using Cons.prems e by auto
    then have "map (\<lambda>d. (fst d, if fst d = c then snd d @ [t] else snd d)) g = g"
      by (intro map_idI) auto
    then show ?thesis using True e by simp
  next
    case False
    then show ?thesis using Cons e by simp
  qed
qed

lemma pushTo_new: "c \<notin> fst ` set g \<Longrightarrow> pushTo c t (g @ [(c, [])]) = g @ [(c, [t])]"
  by (induction g) auto

lemma step_known:
  assumes d: "distinct (map fst g)" and c: "displayNameOf t \<in> fst ` set g"
  shows "extendGroups (pushTo (displayNameOf t) t g) ts @ newGroups (pushTo (displayNameOf t) t g) ts
         = extendGroups g (t # ts) @ newGroups g (t # ts)"
proof -
  let ?c = "displayNameOf t"
  let ?g' = "pushTo ?c t g"
  have g': "?g' = map (\<lambda>e. (fst e, if fst e = ?c then snd e @ [t] else snd e)) g"
    using d by (rule pushTo_map)
  have keys: "fst ` set ?g' = fst ` set g"
    unfolding g' by force
  have e: "extendGroups ?g' ts = extendGroups g (t # ts)"
    unfolding g' extendGroups_def by auto
  have "newGroups ?g' ts = newGroups g (t # ts)"
    unfolding newGroups_def keys using c
    by (auto simp: set_firstOccurrences)
  with e show ?thesis by simp
qed

lemma step_new:
  assumes c: "displayNameOf t \<notin> fst ` set g"
  shows "extendGroups (g @ [(displayNameOf t, [t])]) ts @ newGroups (g @ [(displayNameOf t, [t])]) ts
         = extendGroups g (t # ts) @ newGroups g (t # ts)"
proof -
  let ?c = "displayNameOf t"
  have e: "extendGroups (g @ [(?c, [t])]) ts
           = extendGroups g (t # ts) @ [(?c, filter (\<lambda>h. displayNameOf h = ?c) (t # ts))]"
    using c unfolding extendGroups_def by (auto simp: image_iff)
  have f: "filter (\<lambda>k. k \<notin> fst ` set (g @ [(?c, [t])])) (map displayNameOf ts)
           = filter (\<lambda>j. j \<noteq> ?c) (filter (\<lambda>k. k \<notin> fst ` set g) (map displayNameOf ts))"
    by (auto intro: filter_cong)
  have "newGroups g (t # ts)
        = (?c, filter (\<lambda>h. displayNameOf h = ?c) (t # ts)) # newGroups (g @ [(?c, [t])]) ts"
    unfolding newGroups_def f using c
    by (auto simp: set_firstOccurrences)
  with e show ?thesis by simp
qed

lemma forEachToken_groups:
  assumes "distinct (map fst g)"
    and "\<forall>t \<in> set ts. displayNameOf t \<notin> set objectPrototypeKeys"
  shows "forEachToken ts g = Inr (extendGroups g ts @ newGroups g ts)"
  using assms
proof (induction ts arbitrary: g)
  case Nil
  show ?case by (simp add: extendGroups_def newGroups_def)
next
  case (Cons t ts)
  let ?c = "displayNameOf t"
  have ok: "?c \<notin> set objectPrototypeKeys" using Cons.prems(2) by simp
  have rest: "\<forall>t \<in> set ts. displayNameOf t \<notin> set objectPrototypeKeys" using Cons.prems(2) by simp
  show ?case
  proof (cases "?c \<in> fst ` set g")
    case True
    then obtain grp where "map_of g ?c = Some grp"
      by (metis domD dom_map_of_conv_image_fst)
    then have a: "addToken g t = Inr (pushTo ?c t g)"
      by (simp add: addToken_def displayNameOf_def)
    have "distinct (map fst (pushTo ?c t g))"
      using Cons.prems(1) by (simp add: pushTo_map comp_def)
    then have "forEachToken ts (pushTo ?c t g)
               = Inr (extendGroups (pushTo ?c t g) ts @ newGroups (pushTo ?c t g) ts)"
      using rest by (rule Cons.IH)
    then show ?thesis
      using a step_known [OF Cons.prems(1) True] by simp
  next
    case False
    then have "map_of g ?c = None"
      by (simp add: map_of_eq_None_iff)
    then have a: "addToken g t = Inr (g @ [(?c, [t])])"
      using ok False by (simp add: addToken_def displayNameOf_def pushTo_new)
    have "distinct (map fst (g @ [(?c, [t])]))"
      using Cons.prems(1) False by simp
    then have "forEachToken ts (g @ [(?c, [t])])
               = Inr (extendGroups (g @ [(?c, [t])]) ts @ newGroups (g @ [(?c, [t])]) ts)"
      using rest by (rule Cons.IH)
    then show ?thesis
      using a step_new [OF False] by simp
  qed
qed

lemma forEachToken_groupsOf:
  assumes "\<forall>t \<in> set ts. displayNameOf t \<notin> set objectPrototypeKeys"
  shows "forEachToken ts [] = Inr (groupsOf ts)"
  using forEachToken_groups [of "[]" ts] assms
  by (simp add: extendGroups_def newGroups_def groupsOf_def)

lemma mset_concat_groups:
  "distinct ks \<Longrightarrow>
   mset (concat (map (\<lambda>k. filter (\<lambda>h. f h = k) ts) ks)) = mset (filter (\<lambda>h. f h \<in> set ks) ts)"
proof (induction ks)
  case Nil
  show ?case by simp
next
  case (Cons k ks)
  have "mset (filter (\<lambda>h. f h = k) ts) + mset (filter (\<lambda>h. f h \<in> set ks) ts)
        = mset (filter (\<lambda>h. f h = k \<or> f h \<in> set ks) ts)"
    using Cons.prems by (induction ts) auto
  then show ?case using Cons by simp
qed

lemma mset_groupsOf: "mset (concat (map snd (groupsOf ts))) = mset ts"
proof -
  have "mset (concat (map snd (groupsOf ts)))
        = mset (filter (\<lambda>h. displayNameOf h \<in> set (firstOccurrences (map displayNameOf ts))) ts)"
    unfolding groupsOf_def
    using mset_concat_groups [OF distinct_firstOccurrences, of displayNameOf ts "map displayNameOf ts"]
    by (simp add: comp_def)
  then show ?thesis by (simp add: set_firstOccurrences)
qed

lemma map_insort_key: "map f (insort_key (\<lambda>x. g (f x)) x xs) = insort_key g (f x) (map f xs)"
  by (induction xs) auto

lemma map_sort_key: "map f (sort_key (\<lambda>x. g (f x)) xs) = sort_key g (map f xs)"
  by (induction xs) (auto simp: map_insort_key)

lemma keys_objectEntries:
  "map fst (objectEntries g)
   = sort_key indexValue (filter (\<lambda>k. arrayIndex k \<noteq> None) (map fst g))
     @ filter (\<lambda>k. arrayIndex k = None) (map fst g)"
  by (simp add: objectEntries_def map_sort_key filter_map comp_def)

lemma set_objectEntries: "set (objectEntries g) = set g"
  by (auto simp: objectEntries_def)

lemma keys_groupsOf: "map fst (groupsOf ts) = firstOccurrences (map displayNameOf ts)"
  by (simp add: groupsOf_def comp_def)

lemma getTokensByBlockchain_groupsOf:
  assumes "\<forall>h \<in> set tokens. displayNameOf h \<notin> set objectPrototypeKeys"
  shows "getTokensByBlockchain lc sortBy tokens = Inr (groupsOf (sortedTokens lc sortBy tokens))"
proof -
  have "set (sortedTokens lc sortBy tokens) = set tokens"
    by (simp add: sortedTokens_def set_array_sort)
  then have "\<forall>h \<in> set (sortedTokens lc sortBy tokens). displayNameOf h \<notin> set objectPrototypeKeys"
    using assms by simp
  then show ?thesis
    unfolding getTokensByBlockchain_def by (rule forEachToken_groupsOf)
qed

subsection \<open>The claims about the grouping\<close>

text \<open>
  Claim C5. Grouping should put every holding in the group of its chain display name.
  A holding whose display name is a name every object inherits, such as
  \<^verbatim>\<open>constructor\<close>, is put in no group: the grouping throws.
\<close>

theorem grouping_throws_on_inherited_name:
  "getChainDisplayName (chain tokConstructor) = ''constructor'' \<and>
   getTokensByBlockchain codeCompare ''chain'' [tokUSDC, tokConstructor] = Inl TypeError"
  by code_simp

text \<open>
  For holdings none of whose display names is inherited, the groups partition the sorted
  holdings: the names of the groups are distinct, each group holds exactly the holdings
  of its name, and together the groups hold the input as a multiset.
\<close>

lemma grouping_partitions_other_names:
  assumes "\<forall>h \<in> set tokens. displayNameOf h \<notin> set objectPrototypeKeys"
  shows "getTokensByBlockchain lc sortBy tokens = Inr (groupsOf (sortedTokens lc sortBy tokens)) \<and>
         distinct (map fst (groupsOf (sortedTokens lc sortBy tokens))) \<and>
         (\<forall>e \<in> set (groupsOf (sortedTokens lc sortBy tokens)).
            snd e = filter (\<lambda>h. displayNameOf h = fst e) (sortedTokens lc sortBy tokens)) \<and>
         mset (concat (map snd (groupsOf (sortedTokens lc sortBy tokens)))) = mset tokens"
proof -
  let ?S = "sortedTokens lc sortBy tokens"
  have a: "getTokensByBlockchain lc sortBy tokens = Inr (groupsOf ?S)"
    using assms by (rule getTokensByBlockchain_groupsOf)
  have b: "distinct (map fst (groupsOf ?S))"
    by (simp add: keys_groupsOf distinct_firstOccurrences)
  have c: "\<forall>e \<in> set (groupsOf ?S). snd e = filter (\<lambda>h. displayNameOf h = fst e) ?S"
    by (auto simp: groupsOf_def)
  have d: "mset (concat (map snd (groupsOf ?S))) = mset tokens"
    by (simp add: mset_groupsOf sortedTokens_def mset_array_sort)
  from a b c d show ?thesis by blast
qed

text \<open>
  Claim C6. The subtotal of a group should be the sum of the values of its holdings
  with a value that does not parse counted as zero. With one such value in the group
  the subtotal is \<^verbatim>\<open>NaN\<close>, where the sum the specification describes is 50.
\<close>

theorem subtotal_is_NaN_on_non_numeric_value:
  "totalValue [tokBadValue, tokDAI] = NaN \<and>
   specSubtotal [tokBadValue, tokDAI] = Fin 50 \<and>
   totalValue [tokNaNValue, tokDAI] = NaN \<and>
   (case blockchainSections codeCompare ''chain'' [tokBadValue, tokDAI] of
      Inl e \<Rightarrow> False
    | Inr sections \<Rightarrow>
        map title sections = [''Ethereum''] \<and> map tokenCount sections = [2] \<and>
        map blockchainValue sections = [NaN])"
  by code_simp

text \<open>
  When every value of the group is absent, empty or parses as a finite number, the
  subtotal is the sum the specification describes.
\<close>

lemma foldl_parsed_spec:
  "\<forall>h \<in> set ts. \<exists>r. parsedField (value_field h) = Fin r \<Longrightarrow>
   foldl (\<lambda>sum token. js_add sum (parsedField (value_field token))) a ts
   = foldl (\<lambda>sum h. js_add sum (parseOrZero (value_field h))) a ts"
  by (induction ts arbitrary: a) (auto simp: parseOrZero_def)

lemma totalValue_when_values_parse:
  "\<forall>h \<in> set ts. \<exists>r. parsedField (value_field h) = Fin r \<Longrightarrow> totalValue ts = specSubtotal ts"
  unfolding totalValue_def specSubtotal_def by (rule foldl_parsed_spec)

text \<open>
  Claim C7, as the object of groups has it. Unless the grouping throws on an inherited
  name, it does not sort again: the groups are created in the order in which their
  names first occur in the sorted holdings, and each group holds its holdings in the
  order of the sorted holdings. The sections are shown in the order of creation, except
  that the groups whose name is an array index, such as 56 or 137, are shown first, in
  ascending numeric order.
\<close>

theorem grouping_keeps_order:
  assumes "\<forall>h \<in> set tokens. displayNameOf h \<notin> set objectPrototypeKeys"
  shows "getTokensByBlockchain lc sortBy tokens = Inr (groupsOf (sortedTokens lc sortBy tokens)) \<and>
         (case blockchainSections lc sortBy tokens of
            Inl e \<Rightarrow> False
          | Inr sections \<Rightarrow>
              (\<forall>s \<in> set sections.
                 sectionTokens s = filter (\<lambda>h. displayNameOf h = title s) (sortedTokens lc sortBy tokens)) \<and>
              map title sections
                = sort_key indexValue (filter (\<lambda>k. arrayIndex k \<noteq> None)
                    (firstOccurrences (map displayNameOf (sortedTokens lc sortBy tokens))))
                  @ filter (\<lambda>k. arrayIndex k = None)
                    (firstOccurrences (map displayNameOf (sortedTokens lc sortBy tokens))))"
proof -
  let ?S = "sortedTokens lc sortBy tokens"
  let ?sections = "map renderBlockchainSection (objectEntries (groupsOf ?S))"
  have g: "getTokensByBlockchain lc sortBy tokens = Inr (groupsOf ?S)"
    using assms by (rule getTokensByBlockchain_groupsOf)
  then have b: "blockchainSections lc sortBy tokens = Inr ?sections"
    by (simp add: blockchainSections_def)
  have t: "map title ?sections = map fst (objectEntries (groupsOf ?S))"
    by (simp add: renderBlockchainSection_def Let_def comp_def)
  have "\<forall>e \<in> set (objectEntries (groupsOf ?S)). snd e = filter (\<lambda>h. displayNameOf h = fst e) ?S"
    by (auto simp: set_objectEntries groupsOf_def)
  then have m: "\<forall>s \<in> set ?sections. sectionTokens s = filter (\<lambda>h. displayNameOf h = title s) ?S"
    by (simp add: renderBlockchainSection_def Let_def)
  from g b m t show ?thesis
    by (simp add: keys_objectEntries keys_groupsOf)
qed

theorem grouping_keeps_order_witness:
  "getTokensByBlockchain codeCompare ''chain'' [tokSOL, tokChain137, tokDAI, tokChain56, tokUSDC]
     = Inr [(''137'', [tokChain137]), (''56'', [tokChain56]), (''Ethereum'', [tokDAI, tokUSDC]),
            (''SOLANA'', [tokSOL])] \<and>
   blockchainSections codeCompare ''chain'' [tokSOL, tokChain137, tokDAI, tokChain56, tokUSDC]
     = Inr (map renderBlockchainSection
         [(''56'', [tokChain56]), (''137'', [tokChain137]), (''Ethereum'', [tokDAI, tokUSDC]),
          (''SOLANA'', [tokSOL])]) \<and>
   groupsOf (sortedTokens codeCompare ''chain'' [tokSOL, tokChain137, tokDAI, tokChain56, tokUSDC])
     = [(''137'', [tokChain137]), (''56'', [tokChain56]), (''Ethereum'', [tokDAI, tokUSDC]),
        (''SOLANA'', [tokSOL])]"
proof -
  have h: "\<forall>h \<in> set [tokSOL, tokChain137, tokDAI, tokChain56, tokUSDC].
             displayNameOf h \<notin> set objectPrototypeKeys"
    by code_simp
  have g: "getTokensByBlockchain codeCompare ''chain'' [tokSOL, tokChain137, tokDAI, tokChain56, tokUSDC]
     = Inr [(''137'', [tokChain137]), (''56'', [tokChain56]), (''Ethereum'', [tokDAI, tokUSDC]),
            (''SOLANA'', [tokSOL])]"
    by code_simp
  have b: "blockchainSections codeCompare ''chain'' [tokSOL, tokChain137, tokDAI, tokChain56, tokUSDC]
     = Inr (map renderBlockchainSection
         [(''56'', [tokChain56]), (''137'', [tokChain137]), (''Ethereum'', [tokDAI, tokUSDC]),
          (''SOLANA'', [tokSOL])])"
    by code_simp
  from grouping_keeps_order [OF h, of codeCompare "''chain''"] have
    "getTokensByBlockchain codeCompare ''chain'' [tokSOL, tokChain137, tokDAI, tokChain56, tokUSDC]
     = Inr (groupsOf (sortedTokens codeCompare ''chain'' [tokSOL, tokChain137, tokDAI, tokChain56, tokUSDC]))"
    by (rule conjunct1)
  with g b show ?thesis by simp
qed

text \<open>
  Claim C7 as it is written fails on numeric chain names: chains 137 and 56 first occur
  in this order in the holdings sorted by chain, their groups are created in this order,
  and the sections are shown with 56 first.
\<close>

theorem group_order_counterexample:
  "firstOccurrences (map displayNameOf (sortedTokens codeCompare ''chain'' [tokChain137, tokChain56, tokUSDC]))
     = [''137'', ''56'', ''Ethereum''] \<and>
   getTokensByBlockchain codeCompare ''chain'' [tokChain137, tokChain56, tokUSDC]
     = Inr [(''137'', [tokChain137]), (''56'', [tokChain56]), (''Ethereum'', [tokUSDC])] \<and>
   (case blockchainSections codeCompare ''chain'' [tokChain137, tokChain56, tokUSDC] of
      Inl e \<Rightarrow> False
    | Inr sections \<Rightarrow> map title sections = [''56'', ''137'', ''Ethereum''])"
  by code_simp

text \<open>
  When, moreover, no chain display name is an array index, the sections are shown in the
  order in which their names first occur in the sorted holdings.
\<close>

lemma sections_in_order_of_first_occurrence:
  assumes "\<forall>h \<in> set tokens. displayNameOf h \<notin> set objectPrototypeKeys"
    and "\<forall>h \<in> set tokens. arrayIndex (displayNameOf h) = None"
  shows "getTokensByBlockchain lc sortBy tokens = Inr (groupsOf (sortedTokens lc sortBy tokens)) \<and>
         blockchainSections lc sortBy tokens
           = Inr (map renderBlockchainSection (groupsOf (sortedTokens lc sortBy tokens)))"
proof -
  let ?S = "sortedTokens lc sortBy tokens"
  have g: "getTokensByBlockchain lc sortBy tokens = Inr (groupsOf ?S)"
    using assms(1) by (rule getTokensByBlockchain_groupsOf)
  have "set ?S = set tokens"
    by (simp add: sortedTokens_def set_array_sort)
  then have "\<forall>e \<in> set (groupsOf ?S). arrayIndex (fst e) = None"
    using assms(2) by (auto simp: groupsOf_def set_firstOccurrences)
  then have "objectEntries (groupsOf ?S) = groupsOf ?S"
    by (simp add: objectEntries_def)
  with g show ?thesis by (simp add: blockchainSections_def)
qed

section \<open>Further properties of the sort and of the normalizer\<close>



text \<open>
  Claim C9. The normalizer has a result for every input, absent and empty included.
  The display name of an absent or empty chain is \<^verbatim>\<open>Unknown\<close>; a chain that is not
  in the table of display names is returned as it was given; the colour of an absent
  chain and of a chain that is not in the table of colours is the grey \<^verbatim>\<open>#666\<close>.
\<close>

theorem chain_normalizer_fallbacks:
  "getChainDisplayName None = ''Unknown'' \<and>
   getChainDisplayName (Some '''') = ''Unknown'' \<and>
   (s \<noteq> '''' \<and> toUpperCase s \<notin> set [''EVM'', ''ETH'', ''MATIC'', ''ARB'', ''OP'', ''AVAX'', ''SOL'', ''FTM'']
      \<longrightarrow> getChainDisplayName (Some s) = s) \<and>
   getChainColor None = ''#666'' \<and>
   (toUpperCase s \<notin> set [''ETHEREUM'', ''ETH'', ''POLYGON'', ''MATIC'', ''BSC'', ''BINANCE'',
        ''ARBITRUM'', ''ARB'', ''OPTIMISM'', ''OP'', ''AVALANCHE'', ''AVAX'', ''SOLANA'', ''SOL'',
        ''SUI'', ''BASE'', ''FANTOM'', ''FTM'', ''EVM'']
      \<longrightarrow> getChainColor (Some s) = ''#666'')"
proof -
  have d0: "getChainDisplayName None = ''Unknown''"
    by (simp add: getChainDisplayName_def orElse_def)
  have d1: "getChainDisplayName (Some '''') = ''Unknown''"
    by (simp add: getChainDisplayName_def orElse_def toUpperCase_def)
  have d2: "getChainDisplayName (Some s) = s"
    if "s \<noteq> ''''"
      "toUpperCase s \<notin> set [''EVM'', ''ETH'', ''MATIC'', ''ARB'', ''OP'', ''AVAX'', ''SOL'', ''FTM'']"
    using that by (simp add: getChainDisplayName_def orElse_def)
  have c0: "getChainColor None = ''#666''"
    by (simp add: getChainColor_def)
  have c1: "getChainColor (Some s) = ''#666''"
    if "toUpperCase s \<notin> set [''ETHEREUM'', ''ETH'', ''POLYGON'', ''MATIC'', ''BSC'', ''BINANCE'',
        ''ARBITRUM'', ''ARB'', ''OPTIMISM'', ''OP'', ''AVALANCHE'', ''AVAX'', ''SOLANA'', ''SOL'',
        ''SUI'', ''BASE'', ''FANTOM'', ''FTM'', ''EVM'']"
    using that by (simp add: getChainColor_def)
  from d0 d1 d2 c0 c1 show ?thesis by blast
qed

theorem chain_normalizer_fallbacks_witness:
  "getChainDisplayName None = ''Unknown'' \<and>
   getChainDisplayName (Some '''') = ''Unknown'' \<and>
   ''Cosmos'' \<noteq> '''' \<and>
   toUpperCase ''Cosmos'' \<notin> set [''EVM'', ''ETH'', ''MATIC'', ''ARB'', ''OP'', ''AVAX'', ''SOL'', ''FTM''] \<and>
   getChainDisplayName (Some ''Cosmos'') = ''Cosmos'' \<and>
   getChainColor None = ''#666'' \<and>
   toUpperCase ''Cosmos'' \<notin> set [''ETHEREUM'', ''ETH'', ''POLYGON'', ''MATIC'', ''BSC'', ''BINANCE'',
        ''ARBITRUM'', ''ARB'', ''OPTIMISM'', ''OP'', ''AVALANCHE'', ''AVAX'', ''SOLANA'', ''SOL'',
        ''SUI'', ''BASE'', ''FANTOM'', ''FTM'', ''EVM''] \<and>
   getChainColor (Some ''Cosmos'') = ''#666''"
proof -
  have u: "toUpperCase ''Cosmos'' = ''COSMOS''"
    by code_simp
  from chain_normalizer_fallbacks [of "''Cosmos''"] u
  show ?thesis by simp
qed

text \<open>
  Claim C10. For a criterion that is none of the five options the comparator returns 0
  for every pair of holdings, and the sort returns the holdings in their input order.
\<close>

theorem unknown_criterion_identity:
  assumes "sortBy \<notin> set [''value'', ''balance'', ''performance'', ''alphabetical'', ''chain'']"
  shows "comparator lc sortBy a b = Fin 0 \<and> sortedTokens lc sortBy tokens = tokens"
proof -
  have z: "comparator lc sortBy u v = Fin 0" for u v
    using assms by (simp add: comparator_def)
  then have "\<forall>u v. \<not> negative (comparator lc sortBy u v)"
    by simp
  then have "array_sort (comparator lc sortBy) tokens = tokens"
    by (rule array_sort_zero)
  with z show ?thesis by (simp add: sortedTokens_def)
qed

theorem unknown_criterion_identity_witness:
  "''price'' \<notin> set [''value'', ''balance'', ''performance'', ''alphabetical'', ''chain''] \<and>
   comparator codeCompare ''price'' tokARB tokUSDC = Fin 0 \<and>
   sortedTokens codeCompare ''price'' [tokARB, tokSOL, tokUSDC] = [tokARB, tokSOL, tokUSDC]"
proof -
  have h: "''price'' \<notin> set [''value'', ''balance'', ''performance'', ''alphabetical'', ''chain'']"
    by simp
  from unknown_criterion_identity [OF h, of codeCompare tokARB tokUSDC "[tokARB, tokSOL, tokUSDC]"] h
  show ?thesis by simp
qed

section \<open>The examples of the specification\<close>

text \<open>
  The three holdings of the specification, grouped: the subtotals and counts are the
  ones it gives; the group of the holding on chain \<^verbatim>\<open>SOLANA\<close> carries that name
  as it was given, since the long names are not in the table of display names.
\<close>

lemma example_grouped_by_chain:
  "(case blockchainSections codeCompare ''chain'' [tokUSDC, tokSOL, tokARB] of
      Inl e \<Rightarrow> False
    | Inr sections \<Rightarrow>
        map (\<lambda>s. (title s, tokenCount s, blockchainValue s)) sections
        = [(''Arbitrum'', 1, Fin 0), (''Ethereum'', 1, Fin (201 / 2)), (''SOLANA'', 1, Fin 50)])"
  by code_simp

text \<open>Names in mixed case, sorted by name.\<close>

lemma example_sorted_by_name:
  "map name (sortedTokens codeCompare ''alphabetical''
     [emptyToken\<lparr>name := Some ''Bitcoin''\<rparr>, emptyToken\<lparr>name := Some ''aave''\<rparr>,
      emptyToken\<lparr>name := Some ''Chainlink''\<rparr>])
   = [Some ''aave'', Some ''Bitcoin'', Some ''Chainlink'']"
  by code_simp

text \<open>No holdings.\<close>

lemma example_empty:
  "sortedTokens lc sortBy [] = [] \<and> getTokensByBlockchain lc sortBy [] = Inr []"
  by (simp add: sortedTokens_def getTokensByBlockchain_def array_sort_def)

end
